theory Spec2Isabelle
  imports Main
begin

section \<open>Matchmaking queue of \<open>matchmaking.controller.js\<close>\<close>

text \<open>
  The controller keeps one process-wide JavaScript \<open>Map\<close> from user id to
  \<open>{ rating, timestamp, gameType }\<close>. A JavaScript \<open>Map\<close> iterates in insertion order,
  so the queue is an association list in insertion order. Ratings are the \<open>INTEGER\<close>
  column of the \<open>users\<close> table and timestamps are \<open>Date.now()\<close> milliseconds, both
  integers on which the double arithmetic of JavaScript is exact; they are \<open>int\<close> here.
  User ids and game types are strings.
\<close>

type_synonym userId = string
type_synonym gameType = string

record queue_data =
  rating :: int
  timestamp :: int
  gameType :: gameType

type_synonym queue = "(userId \<times> queue_data) list"

subsection \<open>The operations of \<open>Map\<close> that the controller uses\<close>

definition queue_has :: "queue \<Rightarrow> userId \<Rightarrow> bool" where
  "queue_has q k = (k \<in> set (map fst q))"

definition queue_delete :: "queue \<Rightarrow> userId \<Rightarrow> queue" where
  "queue_delete q k = filter (\<lambda>e. fst e \<noteq> k) q"

text \<open>\<open>Map.prototype.set\<close>: an existing key keeps its position, a new key goes last.\<close>

fun queue_set :: "queue \<Rightarrow> userId \<Rightarrow> queue_data \<Rightarrow> queue" where
  "queue_set [] k v = [(k, v)]"
| "queue_set (e # rest) k v = (if fst e = k then (k, v) # rest else e # queue_set rest k v)"

definition queue_size :: "queue \<Rightarrow> nat" where
  "queue_size q = length q"

subsection \<open>\<open>getRatingDifference\<close> and \<open>findBestMatch\<close>\<close>

definition getRatingDifference :: "int \<Rightarrow> int \<Rightarrow> int" where
  "getRatingDifference rating1 rating2 = \<bar>rating1 - rating2\<bar>"

text \<open>
  The \<open>for ... of\<close> loop of \<open>findBestMatch\<close> over the entries still to visit. The two
  loop variables are \<open>bestMatch\<close> (\<open>None\<close> is \<open>null\<close>) and \<open>smallestDifference\<close>
  (\<open>None\<close> is \<open>Infinity\<close>, below which every difference lies).
\<close>

fun findBestMatch_loop ::
  "int \<Rightarrow> gameType \<Rightarrow> userId \<Rightarrow> queue \<Rightarrow> (userId \<times> queue_data) option \<Rightarrow> int option
    \<Rightarrow> (userId \<times> queue_data) option" where
  "findBestMatch_loop playerRating gt excludeUserId [] bestMatch smallestDifference = bestMatch"
| "findBestMatch_loop playerRating gt excludeUserId (e # rest) bestMatch smallestDifference =
     (if fst e = excludeUserId \<or> gameType (snd e) \<noteq> gt
      then findBestMatch_loop playerRating gt excludeUserId rest bestMatch smallestDifference
      else
        let difference = getRatingDifference playerRating (rating (snd e)) in
        if (case smallestDifference of None \<Rightarrow> True | Some s \<Rightarrow> difference < s)
        then findBestMatch_loop playerRating gt excludeUserId rest (Some e) (Some difference)
        else findBestMatch_loop playerRating gt excludeUserId rest bestMatch smallestDifference)"

definition findBestMatch ::
  "queue \<Rightarrow> int \<Rightarrow> gameType \<Rightarrow> userId \<Rightarrow> (userId \<times> queue_data) option" where
  "findBestMatch q playerRating gt excludeUserId =
     findBestMatch_loop playerRating gt excludeUserId q None None"

subsection \<open>The storage collaborators\<close>

text \<open>
  The controller reaches the database through the Prisma client. A call either rejects
  (storage unavailable; the handler's \<open>catch\<close> answers 500) or resolves. What a lookup
  of a user resolves to, and whether a call on the games table goes through, is input of
  each request. The games table itself is part of the state: a successful
  \<open>prisma.game.create\<close> adds the row it is given and returns it, a rejected one adds
  nothing. Of a row, the columns the controller writes or filters on are kept (the generated
  id and the joined player profiles are left out); \<open>player2Id\<close>, \<open>currentTurn\<close> and
  \<open>startedAt\<close> are empty in a game that \<open>createGame\<close> of the game controller opened
  and nobody joined yet.
\<close>

datatype 'a awaited = Rejected | Resolved 'a

record user =
  user_id :: userId
  user_name :: "string option"
  user_rating :: int

record game =
  game_gameType :: gameType
  player1Id :: userId
  player2Id :: "userId option"
  status :: string
  currentTurn :: "userId option"
  startedAt :: "int option"

record env =
  now :: int
  user_findUnique :: "userId \<Rightarrow> user option awaited"
  game_create_ok :: bool
  game_findFirst_ok :: bool

record state =
  queue :: queue
  games :: "game list"

text \<open>
  The \<open>where\<close> clause of the \<open>prisma.game.findFirst\<close> call in
  \<open>checkMatchmakingStatus\<close>, and its \<open>orderBy: { startedAt: 'desc' }\<close>: of the rows
  that pass, the one started last (the earliest such row of the table when several start
  at the same millisecond, where the database promises no order).
\<close>

definition recentGame_where :: "userId \<Rightarrow> gameType \<Rightarrow> int \<Rightarrow> game \<Rightarrow> bool" where
  "recentGame_where userId gt t g =
     ((player1Id g = userId \<or> player2Id g = Some userId)
      \<and> game_gameType g = gt
      \<and> status g = ''IN_PROGRESS''
      \<and> (case startedAt g of None \<Rightarrow> False | Some started \<Rightarrow> t - 30000 \<le> started))"

definition started_later :: "game \<Rightarrow> game \<Rightarrow> game" where
  "started_later a b =
     (case (startedAt a, startedAt b) of
        (Some x, Some y) \<Rightarrow> if x < y then b else a
      | _ \<Rightarrow> a)"

definition game_findFirst :: "game list \<Rightarrow> userId \<Rightarrow> gameType \<Rightarrow> int \<Rightarrow> game option" where
  "game_findFirst gs userId gt t =
     (case filter (recentGame_where userId gt t) gs of
        [] \<Rightarrow> None
      | g # rest \<Rightarrow> Some (foldl started_later g rest))"

subsection \<open>The request handlers\<close>

datatype response =
    UserNotFound              \<comment> \<open>404, \<open>User not found\<close>\<close>
  | MatchFound game           \<comment> \<open>\<open>matched: true\<close> with the game\<close>
  | Searching nat             \<comment> \<open>start: \<open>matched: false\<close> with \<open>queuePosition\<close>\<close>
  | Cancelled                 \<comment> \<open>cancel: \<open>Matchmaking cancelled\<close>\<close>
  | NotInQueue                \<comment> \<open>cancel: 400, \<open>Not in matchmaking queue\<close>\<close>
  | StatusNotInQueue          \<comment> \<open>status: \<open>matched: false, inQueue: false\<close>\<close>
  | StatusSearching nat       \<comment> \<open>status: \<open>matched: false, inQueue: true\<close> with \<open>queuePosition\<close>\<close>
  | Failure                   \<comment> \<open>500, the \<open>catch\<close> branch of a handler\<close>

definition startMatchmaking :: "env \<Rightarrow> state \<Rightarrow> userId \<Rightarrow> gameType \<Rightarrow> state \<times> response" where
  "startMatchmaking ev s userId gt =
     (case user_findUnique ev userId of
        Rejected \<Rightarrow> (s, Failure)
      | Resolved None \<Rightarrow> (s, UserNotFound)
      | Resolved (Some usr) \<Rightarrow>
          let q1 = (if queue_has (queue s) userId then queue_delete (queue s) userId else queue s) in
          (case findBestMatch q1 (user_rating usr) gt userId of
             Some bestMatch \<Rightarrow>
               let q2 = queue_delete q1 (fst bestMatch) in
               (case user_findUnique ev (fst bestMatch) of
                  Rejected \<Rightarrow> (s\<lparr>queue := q2\<rparr>, Failure)
                | Resolved opponent \<Rightarrow>
                    if game_create_ok ev
                    then
                      let g = \<lparr>game_gameType = gt,
                               player1Id = fst bestMatch,
                               player2Id = Some userId,
                               status = ''IN_PROGRESS'',
                               currentTurn = Some (fst bestMatch),
                               startedAt = Some (now ev)\<rparr>
                      in (s\<lparr>queue := q2, games := games s @ [g]\<rparr>, MatchFound g)
                    else (s\<lparr>queue := q2\<rparr>, Failure))
           | None \<Rightarrow>
               let q2 = queue_set q1 userId
                          \<lparr>rating = user_rating usr, timestamp = now ev, gameType = gt\<rparr>
               in (s\<lparr>queue := q2\<rparr>, Searching (queue_size q2))))"

definition cancelMatchmaking :: "state \<Rightarrow> userId \<Rightarrow> state \<times> response" where
  "cancelMatchmaking s userId =
     (if queue_has (queue s) userId
      then (s\<lparr>queue := queue_delete (queue s) userId\<rparr>, Cancelled)
      else (s, NotInQueue))"

text \<open>
  In \<open>checkMatchmakingStatus\<close> the looked-up user is dereferenced (\<open>user.rating\<close>)
  without a test for \<open>null\<close>: a missing user raises a \<open>TypeError\<close> that the
  \<open>catch\<close> turns into the 500 answer.
\<close>

definition checkMatchmakingStatus :: "env \<Rightarrow> state \<Rightarrow> userId \<Rightarrow> gameType \<Rightarrow> state \<times> response" where
  "checkMatchmakingStatus ev s userId gt =
     (if \<not> queue_has (queue s) userId
      then
        (if game_findFirst_ok ev
         then (case game_findFirst (games s) userId gt (now ev) of
                 Some recentGame \<Rightarrow> (s, MatchFound recentGame)
               | None \<Rightarrow> (s, StatusNotInQueue))
         else (s, Failure))
      else
        (case user_findUnique ev userId of
           Rejected \<Rightarrow> (s, Failure)
         | Resolved None \<Rightarrow> (s, Failure)
         | Resolved (Some usr) \<Rightarrow>
             (case findBestMatch (queue s) (user_rating usr) gt userId of
                Some bestMatch \<Rightarrow>
                  let q2 = queue_delete (queue_delete (queue s) userId) (fst bestMatch) in
                  if game_create_ok ev
                  then
                    let g = \<lparr>game_gameType = gt,
                             player1Id = userId,
                             player2Id = Some (fst bestMatch),
                             status = ''IN_PROGRESS'',
                             currentTurn = Some userId,
                             startedAt = Some (now ev)\<rparr>
                    in (s\<lparr>queue := q2, games := games s @ [g]\<rparr>, MatchFound g)
                  else (s\<lparr>queue := q2\<rparr>, Failure)
              | None \<Rightarrow> (s, StatusSearching (queue_size (queue s))))))"

subsection \<open>The clean-up timer\<close>

definition TIMEOUT :: int where
  "TIMEOUT = 5 * 60 * 1000"

definition cleanup_interval :: int where
  "cleanup_interval = 60000"

text \<open>
  The body of the \<open>setInterval\<close> callback: it walks the entries and deletes the key of
  each one that is too old. The first argument is the entries still to visit, the second
  the map being changed.
\<close>

fun cleanup_loop :: "int \<Rightarrow> queue \<Rightarrow> queue \<Rightarrow> queue" where
  "cleanup_loop t [] q = q"
| "cleanup_loop t (e # rest) q =
     (if t - timestamp (snd e) > TIMEOUT
      then cleanup_loop t rest (queue_delete q (fst e))
      else cleanup_loop t rest q)"

definition cleanup :: "int \<Rightarrow> state \<Rightarrow> state" where
  "cleanup t s = s\<lparr>queue := cleanup_loop t (queue s) (queue s)\<rparr>"

subsection \<open>Sequences of operations\<close>

text \<open>
  Requests are taken one after the other, each handler running to its answer before the
  next starts: a request is one step on the state. (\<open>startMatchmaking\<close> reads and
  writes the map in one stretch of code between two \<open>await\<close>s; in
  \<open>checkMatchmakingStatus\<close> the membership test comes before the \<open>await\<close> of the
  user lookup and the search after it, and what another request could do in between is
  outside this model.) A run is a list of requests and timer ticks, each with the
  environment it meets.
\<close>

datatype request =
    Start userId gameType
  | Cancel userId
  | Status userId gameType
  | Tick

fun handle :: "env \<Rightarrow> request \<Rightarrow> state \<Rightarrow> state" where
  "handle ev (Start userId gt) s = fst (startMatchmaking ev s userId gt)"
| "handle ev (Cancel userId) s = fst (cancelMatchmaking s userId)"
| "handle ev (Status userId gt) s = fst (checkMatchmakingStatus ev s userId gt)"
| "handle ev Tick s = cleanup (now ev) s"

fun run :: "state \<Rightarrow> (env \<times> request) list \<Rightarrow> state" where
  "run s [] = s"
| "run s ((ev, r) # rest) = run (handle ev r s) rest"

subsection \<open>The search as the specification words it\<close>

text \<open>
  The specification describes the search as: of the entries with the requester's game
  type and another player's id, the one at the least rating distance, the first of them
  in iteration order when several are at that distance. These definitions follow those
  words; that the loop of \<open>findBestMatch\<close> computes the same is proved below.
\<close>

definition candidates :: "gameType \<Rightarrow> userId \<Rightarrow> queue \<Rightarrow> queue" where
  "candidates gt requester q = filter (\<lambda>e. gameType (snd e) = gt \<and> fst e \<noteq> requester) q"

definition rating_gap :: "int \<Rightarrow> userId \<times> queue_data \<Rightarrow> int" where
  "rating_gap requesterRating c = \<bar>rating (snd c) - requesterRating\<bar>"

definition nearest_first :: "int \<Rightarrow> queue \<Rightarrow> (userId \<times> queue_data) option" where
  "nearest_first requesterRating cs =
     (if cs = [] then None
      else find (\<lambda>c. rating_gap requesterRating c = Min (rating_gap requesterRating ` set cs)) cs)"

subsection \<open>The row of a match\<close>

text \<open>
  Both handlers hand \<open>prisma.game.create\<close> a row of the same shape; only who comes
  first differs. \<open>match_of gt first second t\<close> is that row with \<open>first\<close> as
  \<open>player1Id\<close> and \<open>currentTurn\<close>. It is used below to state what the handlers,
  which write the row out field by field, produce.
\<close>

definition match_of :: "gameType \<Rightarrow> userId \<Rightarrow> userId \<Rightarrow> int \<Rightarrow> game" where
  "match_of gt first second t =
     \<lparr>game_gameType = gt, player1Id = first, player2Id = Some second,
      status = ''IN_PROGRESS'', currentTurn = Some first, startedAt = Some t\<rparr>"

subsection \<open>Example data\<close>

definition demo_users :: "userId \<Rightarrow> user option awaited" where
  "demo_users u = Resolved (map_of
     [(''alice'', \<lparr>user_id = ''alice'', user_name = Some ''Alice'', user_rating = 1000\<rparr>),
      (''bob'', \<lparr>user_id = ''bob'', user_name = None, user_rating = 1050\<rparr>),
      (''carol'', \<lparr>user_id = ''carol'', user_name = Some ''Carol'', user_rating = 1500\<rparr>)] u)"

definition demo_env :: "int \<Rightarrow> env" where
  "demo_env t = \<lparr>now = t, user_findUnique = demo_users, game_create_ok = True,
                 game_findFirst_ok = True\<rparr>"

definition waiting :: "int \<Rightarrow> int \<Rightarrow> gameType \<Rightarrow> queue_data" where
  "waiting r t gt = \<lparr>rating = r, timestamp = t, gameType = gt\<rparr>"

definition mixed_waiting :: state where
  "mixed_waiting = \<lparr>queue = [(''alice'', waiting 1000 10 ''ayo''), (''bob'', waiting 1050 20 ''chess'')],
                    games = []\<rparr>"

definition lone_waiting :: state where
  "lone_waiting = \<lparr>queue = [(''alice'', waiting 1000 10 ''ayo''), (''bob'', waiting 1050 20 ''chess'')],
                   games = [match_of ''ayo'' ''dave'' ''erin'' 5]\<rparr>"

definition demo_env_create_fails :: "int \<Rightarrow> env" where
  "demo_env_create_fails t = (demo_env t)\<lparr>game_create_ok := False\<rparr>"

definition demo_env_lookup_fails :: "int \<Rightarrow> env" where
  "demo_env_lookup_fails t = (demo_env t)\<lparr>user_findUnique := (\<lambda>u. Rejected)\<rparr>"

text \<open>The two requests that lead from the empty queue to \<open>mixed_waiting\<close>.\<close>

definition two_started :: "(env \<times> request) list" where
  "two_started = [(demo_env 10, Start ''alice'' ''ayo''), (demo_env 20, Start ''bob'' ''chess'')]"

section \<open>Properties\<close>

text \<open>The defining equations with which the handlers are run on concrete requests.\<close>

lemmas run_defs =
  startMatchmaking_def cancelMatchmaking_def checkMatchmakingStatus_def cleanup_def
  findBestMatch_def getRatingDifference_def queue_has_def queue_delete_def queue_size_def
  game_findFirst_def recentGame_where_def started_later_def TIMEOUT_def
  candidates_def rating_gap_def nearest_first_def
  match_of_def demo_env_def demo_users_def waiting_def two_started_def mixed_waiting_def
  lone_waiting_def demo_env_create_fails_def demo_env_lookup_fails_def Let_def

subsection \<open>The loop of \<open>findBestMatch\<close> against the specification's search\<close>

lemma nearest_first_single: "nearest_first r [b] = Some b"
  by (simp add: nearest_first_def)

lemma nearest_first_less:
  assumes "rating_gap r e < rating_gap r b"
  shows "nearest_first r (b # e # cs) = nearest_first r (e # cs)"
proof -
  let ?M = "Min (rating_gap r ` set (e # cs))"
  have le: "?M \<le> rating_gap r e" by simp
  have "Min (insert (rating_gap r b) (rating_gap r ` set (e # cs))) = min (rating_gap r b) ?M"
    by (rule Min_insert) simp_all
  then have "Min (rating_gap r ` set (b # e # cs)) = min (rating_gap r b) ?M"
    by simp
  also have "\<dots> = ?M" using le assms by (intro min_absorb2) linarith
  finally have M: "Min (rating_gap r ` set (b # e # cs)) = ?M" .
  have "rating_gap r b \<noteq> ?M" using le assms by linarith
  then show ?thesis
    unfolding nearest_first_def M by simp
qed

lemma nearest_first_geq:
  assumes "\<not> rating_gap r e < rating_gap r b"
  shows "nearest_first r (b # e # cs) = nearest_first r (b # cs)"
proof -
  let ?M = "Min (rating_gap r ` set (b # cs))"
  have le: "?M \<le> rating_gap r b" by simp
  have "rating_gap r ` set (b # e # cs) = insert (rating_gap r e) (rating_gap r ` set (b # cs))"
    by auto
  moreover have "Min (insert (rating_gap r e) (rating_gap r ` set (b # cs))) = min (rating_gap r e) ?M"
    by (rule Min_insert) simp_all
  ultimately have "Min (rating_gap r ` set (b # e # cs)) = min (rating_gap r e) ?M"
    by simp
  also have "\<dots> = ?M" using le assms by (intro min_absorb2) linarith
  finally have M: "Min (rating_gap r ` set (b # e # cs)) = ?M" .
  show ?thesis
  proof (cases "rating_gap r b = ?M")
    case True
    then show ?thesis unfolding nearest_first_def M by simp
  next
    case False
    with le assms have "rating_gap r e \<noteq> ?M" by linarith
    with False show ?thesis unfolding nearest_first_def M by simp
  qed
qed

lemma gap_getRatingDifference:
  "getRatingDifference r (rating (snd e)) = rating_gap r e"
  by (simp add: getRatingDifference_def rating_gap_def abs_minus_commute)

lemma findBestMatch_loop_from_best:
  "findBestMatch_loop r gt ex q (Some b) (Some (rating_gap r b))
     = nearest_first r (b # candidates gt ex q)"
proof (induction q arbitrary: b)
  case Nil
  show ?case by (simp add: candidates_def nearest_first_single)
next
  case (Cons e rest)
  show ?case
  proof (cases "fst e = ex \<or> gameType (snd e) \<noteq> gt")
    case True
    then have "candidates gt ex (e # rest) = candidates gt ex rest"
      by (auto simp: candidates_def)
    with True Cons.IH [of b] show ?thesis by simp
  next
    case False
    then have cs: "candidates gt ex (e # rest) = e # candidates gt ex rest"
      by (auto simp: candidates_def)
    show ?thesis
    proof (cases "rating_gap r e < rating_gap r b")
      case True
      with False Cons.IH [of e] show ?thesis
        by (simp add: cs gap_getRatingDifference nearest_first_less)
    next
      case geq: False
      with False Cons.IH [of b] show ?thesis
        by (simp add: cs gap_getRatingDifference nearest_first_geq)
    qed
  qed
qed

lemma findBestMatch_loop_from_null:
  "findBestMatch_loop r gt ex q None None = nearest_first r (candidates gt ex q)"
proof (induction q)
  case Nil
  show ?case by (simp add: candidates_def nearest_first_def)
next
  case (Cons e rest)
  show ?case
  proof (cases "fst e = ex \<or> gameType (snd e) \<noteq> gt")
    case True
    then have "candidates gt ex (e # rest) = candidates gt ex rest"
      by (auto simp: candidates_def)
    with True Cons.IH show ?thesis by simp
  next
    case False
    then have cs: "candidates gt ex (e # rest) = e # candidates gt ex rest"
      by (auto simp: candidates_def)
    from False show ?thesis
      by (simp add: cs gap_getRatingDifference findBestMatch_loop_from_best)
  qed
qed

subsection \<open>Facts about the map operations\<close>

lemma keys_queue_delete: "fst ` set (queue_delete q k) = fst ` set q - {k}"
  by (auto simp: queue_delete_def)

lemma queue_has_delete: "queue_has (queue_delete q k) k' = (queue_has q k' \<and> k' \<noteq> k)"
  by (auto simp: queue_has_def queue_delete_def)

lemma distinct_queue_delete: "distinct (map fst q) \<Longrightarrow> distinct (map fst (queue_delete q k))"
  by (simp add: queue_delete_def distinct_map_filter)

lemma queue_delete_absent: "\<not> queue_has q k \<Longrightarrow> queue_delete q k = q"
  by (induction q) (auto simp: queue_delete_def queue_has_def)

lemma queue_set_absent: "\<not> queue_has q k \<Longrightarrow> queue_set q k v = q @ [(k, v)]"
  by (induction q) (auto simp: queue_has_def)

lemma requester_removed:
  "(if queue_has q k then queue_delete q k else q) = queue_delete q k"
  by (simp add: queue_delete_absent)

lemma distinct_queue_set: "distinct (map fst q) \<Longrightarrow> distinct (map fst (queue_set q k v))"
proof (induction q)
  case Nil
  show ?case by simp
next
  case (Cons e rest)
  have keys: "fst ` set (queue_set rest k v) = insert k (fst ` set rest)"
    by (induction rest) auto
  from Cons show ?case by (auto simp: keys)
qed

subsection \<open>Facts about the search\<close>

lemma findBestMatch_eq: "findBestMatch q r gt ex = nearest_first r (candidates gt ex q)"
  by (simp add: findBestMatch_def findBestMatch_loop_from_null)

lemma findBestMatch_SomeD:
  assumes "findBestMatch q r gt ex = Some c"
  shows "c \<in> set q \<and> fst c \<noteq> ex \<and> gameType (snd c) = gt"
proof -
  from assms have "find (\<lambda>x. rating_gap r x = Min (rating_gap r ` set (candidates gt ex q)))
      (candidates gt ex q) = Some c"
    by (simp add: findBestMatch_eq nearest_first_def split: if_splits)
  then have "c \<in> set (candidates gt ex q)"
    by (auto simp: find_Some_iff)
  then show ?thesis by (simp add: candidates_def)
qed

lemma findBestMatch_None_iff:
  "findBestMatch q r gt ex = None \<longleftrightarrow> candidates gt ex q = []"
proof
  assume "candidates gt ex q = []"
  then show "findBestMatch q r gt ex = None"
    by (simp add: findBestMatch_eq nearest_first_def)
next
  assume none: "findBestMatch q r gt ex = None"
  show "candidates gt ex q = []"
  proof (rule ccontr)
    assume ne: "candidates gt ex q \<noteq> []"
    let ?S = "rating_gap r ` set (candidates gt ex q)"
    have "Min ?S \<in> ?S" using ne by (intro Min_in) simp_all
    then obtain c where "c \<in> set (candidates gt ex q)" "rating_gap r c = Min ?S" by auto
    then have "find (\<lambda>x. rating_gap r x = Min ?S) (candidates gt ex q) \<noteq> None"
      unfolding find_None_iff by blast
    with ne none show False by (simp add: findBestMatch_eq nearest_first_def)
  qed
qed

lemma candidates_empty_iff:
  "candidates gt ex q = [] \<longleftrightarrow> (\<forall>e\<in>set q. gameType (snd e) = gt \<longrightarrow> fst e = ex)"
  by (auto simp: candidates_def filter_empty_conv)

subsection \<open>Facts about the clean-up loop\<close>

lemma cleanup_loop_filter:
  "cleanup_loop t xs q =
     filter (\<lambda>e. fst e \<notin> fst ` {x \<in> set xs. t - timestamp (snd x) > TIMEOUT}) q"
proof (induction xs arbitrary: q)
  case Nil
  show ?case by simp
next
  case (Cons x xs)
  show ?case
  proof (cases "t - timestamp (snd x) > TIMEOUT")
    case True
    have "{y \<in> set (x # xs). t - timestamp (snd y) > TIMEOUT}
            = insert x {y \<in> set xs. t - timestamp (snd y) > TIMEOUT}"
      using True by auto
    with True Cons.IH [of "queue_delete q (fst x)"] show ?thesis
      by (auto simp: queue_delete_def intro: filter_cong)
  next
    case False
    then have "{y \<in> set (x # xs). t - timestamp (snd y) > TIMEOUT}
            = {y \<in> set xs. t - timestamp (snd y) > TIMEOUT}"
      by auto
    with False Cons.IH [of q] show ?thesis by simp
  qed
qed

lemma cleanup_loop_distinct:
  assumes "distinct (map fst q)"
  shows "cleanup_loop t q q = filter (\<lambda>e. t - timestamp (snd e) \<le> TIMEOUT) q"
proof -
  have "fst e \<notin> fst ` {x \<in> set q. t - timestamp (snd x) > TIMEOUT}
          \<longleftrightarrow> t - timestamp (snd e) \<le> TIMEOUT" if "e \<in> set q" for e
  proof -
    have "x = e" if "x \<in> set q" "fst x = fst e" for x
      using assms that \<open>e \<in> set q\<close> by (metis eq_key_imp_eq_value prod.collapse)
    then show ?thesis using that by (auto simp: not_less [symmetric])
  qed
  then show ?thesis
    unfolding cleanup_loop_filter by (intro filter_cong) auto
qed

lemma distinct_cleanup_loop: "distinct (map fst q) \<Longrightarrow> distinct (map fst (cleanup_loop t xs q))"
  by (simp add: cleanup_loop_filter distinct_map_filter)

subsection \<open>The handlers keep the keys distinct\<close>

lemma startMatchmaking_distinct:
  "distinct (map fst (queue s)) \<Longrightarrow> distinct (map fst (queue (fst (startMatchmaking ev s p gt))))"
  by (auto simp: startMatchmaking_def Let_def distinct_queue_delete distinct_queue_set
           split: awaited.splits option.splits)

lemma cancelMatchmaking_distinct:
  "distinct (map fst (queue s)) \<Longrightarrow> distinct (map fst (queue (fst (cancelMatchmaking s p))))"
  by (simp add: cancelMatchmaking_def distinct_queue_delete)

lemma checkMatchmakingStatus_distinct:
  "distinct (map fst (queue s)) \<Longrightarrow>
   distinct (map fst (queue (fst (checkMatchmakingStatus ev s p gt))))"
  by (auto simp: checkMatchmakingStatus_def Let_def distinct_queue_delete
           split: awaited.splits option.splits)

lemma handle_distinct:
  "distinct (map fst (queue s)) \<Longrightarrow> distinct (map fst (queue (handle ev r s)))"
  by (cases r)
     (simp_all add: startMatchmaking_distinct cancelMatchmaking_distinct
        checkMatchmakingStatus_distinct cleanup_def distinct_cleanup_loop)

lemma run_distinct:
  "distinct (map fst (queue s)) \<Longrightarrow> distinct (map fst (queue (run s ops)))"
proof (induction ops arbitrary: s)
  case Nil
  then show ?case by simp
next
  case (Cons x ops)
  obtain ev r where x: "x = (ev, r)" by (cases x)
  from Cons.prems have "distinct (map fst (queue (handle ev r s)))"
    by (rule handle_distinct)
  then show ?case unfolding x by (simp add: Cons.IH)
qed

subsection \<open>What \<open>startMatchmaking\<close> does once the requester is known\<close>

lemma startMatchmaking_no_candidate:
  assumes "user_findUnique ev p = Resolved (Some usr)"
    and "candidates gt p (queue s) = []"
  shows "startMatchmaking ev s p gt =
           (s\<lparr>queue := queue_delete (queue s) p
                 @ [(p, \<lparr>rating = user_rating usr, timestamp = now ev, gameType = gt\<rparr>)]\<rparr>,
            Searching (length (queue_delete (queue s) p) + 1))"
proof -
  have "candidates gt p (queue_delete (queue s) p) = []"
    using assms(2) by (simp add: candidates_empty_iff queue_delete_def)
  then have none: "findBestMatch (queue_delete (queue s) p) (user_rating usr) gt p = None"
    by (simp add: findBestMatch_None_iff)
  have absent: "\<not> queue_has (queue_delete (queue s) p) p"
    by (simp add: queue_has_delete)
  show ?thesis
    by (simp add: startMatchmaking_def assms(1) requester_removed none
          queue_set_absent [OF absent] queue_size_def Let_def)
qed

lemma startMatchmaking_candidate_queue:
  assumes "user_findUnique ev p = Resolved (Some usr)"
    and "findBestMatch (queue_delete (queue s) p) (user_rating usr) gt p = Some c"
  shows "queue (fst (startMatchmaking ev s p gt))
           = queue_delete (queue_delete (queue s) p) (fst c)"
  by (simp add: startMatchmaking_def assms requester_removed Let_def split: awaited.splits)

lemma candidates_delete_requester:
  "candidates gt p (queue_delete q p) = candidates gt p q"
  by (induction q) (auto simp: candidates_def queue_delete_def)

subsection \<open>What the handlers answer once a candidate is known\<close>

lemma startMatchmaking_candidate:
  assumes "user_findUnique ev p = Resolved (Some usr)"
    and "findBestMatch (queue_delete (queue s) p) (user_rating usr) gt p = Some c"
  shows "startMatchmaking ev s p gt =
     (if user_findUnique ev (fst c) \<noteq> Rejected \<and> game_create_ok ev
      then (s\<lparr>queue := queue_delete (queue_delete (queue s) p) (fst c),
              games := games s @ [match_of gt (fst c) p (now ev)]\<rparr>,
            MatchFound (match_of gt (fst c) p (now ev)))
      else (s\<lparr>queue := queue_delete (queue_delete (queue s) p) (fst c)\<rparr>, Failure))"
  by (simp add: startMatchmaking_def assms requester_removed match_of_def Let_def split: awaited.splits)

lemma checkMatchmakingStatus_candidate:
  assumes "queue_has (queue s) p"
    and "user_findUnique ev p = Resolved (Some usr)"
    and "findBestMatch (queue s) (user_rating usr) gt p = Some c"
  shows "checkMatchmakingStatus ev s p gt =
     (if game_create_ok ev
      then (s\<lparr>queue := queue_delete (queue_delete (queue s) p) (fst c),
              games := games s @ [match_of gt p (fst c) (now ev)]\<rparr>,
            MatchFound (match_of gt p (fst c) (now ev)))
      else (s\<lparr>queue := queue_delete (queue_delete (queue s) p) (fst c)\<rparr>, Failure))"
  by (simp add: checkMatchmakingStatus_def assms match_of_def Let_def)

lemma checkMatchmakingStatus_no_candidate:
  assumes "queue_has (queue s) p"
    and "user_findUnique ev p = Resolved (Some usr)"
    and "candidates gt p (queue s) = []"
  shows "checkMatchmakingStatus ev s p gt = (s, StatusSearching (length (queue s)))"
proof -
  from assms(3) have "findBestMatch (queue s) (user_rating usr) gt p = None"
    by (simp add: findBestMatch_None_iff)
  then show ?thesis
    by (simp add: checkMatchmakingStatus_def assms(1,2) queue_size_def)
qed

text \<open>What a matched answer of either handler can be.\<close>

lemma startMatchmaking_MatchFoundD:
  assumes "startMatchmaking ev s p gt = (s', MatchFound g)"
  shows "\<exists>usr c. user_findUnique ev p = Resolved (Some usr)
           \<and> findBestMatch (queue_delete (queue s) p) (user_rating usr) gt p = Some c
           \<and> user_findUnique ev (fst c) \<noteq> Rejected \<and> game_create_ok ev
           \<and> g = match_of gt (fst c) p (now ev)
           \<and> s' = s\<lparr>queue := queue_delete (queue_delete (queue s) p) (fst c),
                     games := games s @ [g]\<rparr>"
  using assms
  by (auto simp: startMatchmaking_def requester_removed match_of_def Let_def
           split: awaited.splits option.splits if_splits)

lemma foldl_started_later_in: "foldl started_later g rest \<in> set (g # rest)"
proof (induction rest arbitrary: g)
  case Nil
  show ?case by simp
next
  case (Cons x rest)
  have "started_later g x = g \<or> started_later g x = x"
    by (simp add: started_later_def split: option.splits)
  with Cons.IH [of "started_later g x"] show ?case by auto
qed

lemma game_findFirst_SomeD:
  assumes "game_findFirst gs p gt t = Some g"
  shows "g \<in> set gs \<and> recentGame_where p gt t g"
proof -
  from assms obtain x rest where
    f: "filter (recentGame_where p gt t) gs = x # rest" and g: "g = foldl started_later x rest"
    by (auto simp: game_findFirst_def split: list.splits)
  have "g \<in> set (x # rest)" unfolding g by (rule foldl_started_later_in)
  then have "g \<in> set (filter (recentGame_where p gt t) gs)" by (simp only: f)
  then show ?thesis by simp
qed

lemma checkMatchmakingStatus_MatchFoundD:
  assumes "checkMatchmakingStatus ev s p gt = (s', MatchFound g)"
  shows "(\<not> queue_has (queue s) p \<and> game_findFirst_ok ev
            \<and> game_findFirst (games s) p gt (now ev) = Some g \<and> s' = s)
         \<or> (queue_has (queue s) p \<and> (\<exists>usr c. user_findUnique ev p = Resolved (Some usr)
           \<and> findBestMatch (queue s) (user_rating usr) gt p = Some c
           \<and> game_create_ok ev
           \<and> g = match_of gt p (fst c) (now ev)
           \<and> s' = s\<lparr>queue := queue_delete (queue_delete (queue s) p) (fst c),
                     games := games s @ [g]\<rparr>))"
  using assms
  by (auto simp: checkMatchmakingStatus_def match_of_def Let_def
           split: awaited.splits option.splits if_splits)

text \<open>What either handler can do to the games table.\<close>

lemma startMatchmaking_games:
  "games (fst (startMatchmaking ev s p gt)) = games s
   \<or> (\<exists>c. c \<in> set (queue s) \<and> fst c \<noteq> p \<and> gameType (snd c) = gt
         \<and> games (fst (startMatchmaking ev s p gt)) = games s @ [match_of gt (fst c) p (now ev)])"
proof (cases "user_findUnique ev p")
  case Rejected
  then show ?thesis by (simp add: startMatchmaking_def)
next
  case (Resolved u)
  show ?thesis
  proof (cases u)
    case None
    with Resolved show ?thesis by (simp add: startMatchmaking_def)
  next
    case (Some usr)
    with Resolved have usr: "user_findUnique ev p = Resolved (Some usr)" by simp
    show ?thesis
    proof (cases "findBestMatch (queue_delete (queue s) p) (user_rating usr) gt p")
      case None
      then have "candidates gt p (queue s) = []"
        by (simp add: findBestMatch_None_iff candidates_delete_requester)
      with usr show ?thesis by (simp add: startMatchmaking_no_candidate)
    next
      case (Some c)
      from findBestMatch_SomeD [OF Some]
      have c: "c \<in> set (queue s) \<and> fst c \<noteq> p \<and> gameType (snd c) = gt"
        by (simp add: queue_delete_def)
      show ?thesis
      proof (cases "user_findUnique ev (fst c) \<noteq> Rejected \<and> game_create_ok ev")
        case True
        then have "games (fst (startMatchmaking ev s p gt))
            = games s @ [match_of gt (fst c) p (now ev)]"
          unfolding startMatchmaking_candidate [OF usr Some] by simp
        with c show ?thesis by blast
      next
        case False
        then have "games (fst (startMatchmaking ev s p gt)) = games s"
          unfolding startMatchmaking_candidate [OF usr Some] by auto
        then show ?thesis by simp
      qed
    qed
  qed
qed

lemma checkMatchmakingStatus_games:
  "games (fst (checkMatchmakingStatus ev s p gt)) = games s
   \<or> (\<exists>c. c \<in> set (queue s) \<and> fst c \<noteq> p \<and> gameType (snd c) = gt
         \<and> games (fst (checkMatchmakingStatus ev s p gt))
             = games s @ [match_of gt p (fst c) (now ev)])"
proof (cases "queue_has (queue s) p")
  case False
  then show ?thesis by (simp add: checkMatchmakingStatus_def split: option.splits)
next
  case True
  show ?thesis
  proof (cases "user_findUnique ev p")
    case Rejected
    with True show ?thesis by (simp add: checkMatchmakingStatus_def)
  next
    case (Resolved u)
    show ?thesis
    proof (cases u)
      case None
      with True Resolved show ?thesis by (simp add: checkMatchmakingStatus_def)
    next
      case (Some usr)
      with Resolved have usr: "user_findUnique ev p = Resolved (Some usr)" by simp
      show ?thesis
      proof (cases "findBestMatch (queue s) (user_rating usr) gt p")
        case None
        with True usr show ?thesis by (simp add: checkMatchmakingStatus_def)
      next
        case (Some c)
        from findBestMatch_SomeD [OF Some]
        have c: "c \<in> set (queue s) \<and> fst c \<noteq> p \<and> gameType (snd c) = gt" .
        show ?thesis
        proof (cases "game_create_ok ev")
          case True
          then have "games (fst (checkMatchmakingStatus ev s p gt))
              = games s @ [match_of gt p (fst c) (now ev)]"
            unfolding checkMatchmakingStatus_candidate [OF \<open>queue_has (queue s) p\<close> usr Some]
            by simp
          with c show ?thesis by blast
        next
          case False
          then have "games (fst (checkMatchmakingStatus ev s p gt)) = games s"
            unfolding checkMatchmakingStatus_candidate [OF \<open>queue_has (queue s) p\<close> usr Some]
            by simp
          then show ?thesis by simp
        qed
      qed
    qed
  qed
qed

subsection \<open>At most one player waits for a game type\<close>

text \<open>
  An entry is only ever put into the map by the \<open>set\<close> of \<open>startMatchmaking\<close>, in the
  branch where the search found nobody else with that game type, and the search knows no
  rating threshold. So in every state that the handlers reach from the empty queue, run one
  after the other, the entries have pairwise different game types.
\<close>

lemma tags_queue_delete:
  "distinct (map (\<lambda>e. gameType (snd e)) q) \<Longrightarrow>
   distinct (map (\<lambda>e. gameType (snd e)) (queue_delete q k))"
  by (simp add: queue_delete_def distinct_map_filter)

lemma startMatchmaking_tags:
  assumes "distinct (map (\<lambda>e. gameType (snd e)) (queue s))"
  shows "distinct (map (\<lambda>e. gameType (snd e)) (queue (fst (startMatchmaking ev s p gt))))"
proof (cases "user_findUnique ev p")
  case Rejected
  with assms show ?thesis by (simp add: startMatchmaking_def)
next
  case (Resolved u)
  show ?thesis
  proof (cases u)
    case None
    with Resolved assms show ?thesis by (simp add: startMatchmaking_def)
  next
    case (Some usr)
    with Resolved have usr: "user_findUnique ev p = Resolved (Some usr)" by simp
    show ?thesis
    proof (cases "findBestMatch (queue_delete (queue s) p) (user_rating usr) gt p")
      case None
      then have none: "candidates gt p (queue s) = []"
        by (simp add: findBestMatch_None_iff candidates_delete_requester)
      then have "gt \<notin> (\<lambda>e. gameType (snd e)) ` set (queue_delete (queue s) p)"
        by (auto simp: candidates_empty_iff queue_delete_def)
      with assms show ?thesis
        unfolding startMatchmaking_no_candidate [OF usr none]
        by (simp add: tags_queue_delete)
    next
      case (Some c)
      from assms show ?thesis
        unfolding startMatchmaking_candidate_queue [OF usr Some]
        by (simp add: tags_queue_delete)
    qed
  qed
qed

lemma checkMatchmakingStatus_queue:
  "queue (fst (checkMatchmakingStatus ev s p gt)) = queue s
   \<or> (\<exists>k. queue (fst (checkMatchmakingStatus ev s p gt))
            = queue_delete (queue_delete (queue s) p) k)"
  by (auto simp: checkMatchmakingStatus_def Let_def split: awaited.splits option.splits)

lemma handle_tags:
  assumes "distinct (map (\<lambda>e. gameType (snd e)) (queue s))"
  shows "distinct (map (\<lambda>e. gameType (snd e)) (queue (handle ev r s)))"
proof (cases r)
  case (Start p gt)
  with assms show ?thesis by (simp add: startMatchmaking_tags)
next
  case (Cancel p)
  with assms show ?thesis by (simp add: cancelMatchmaking_def tags_queue_delete)
next
  case (Status p gt)
  with assms checkMatchmakingStatus_queue [of ev s p gt] show ?thesis
    by (auto simp: tags_queue_delete)
next
  case Tick
  with assms show ?thesis
    by (simp add: cleanup_def cleanup_loop_filter distinct_map_filter)
qed

lemma run_tags:
  "distinct (map (\<lambda>e. gameType (snd e)) (queue s)) \<Longrightarrow>
   distinct (map (\<lambda>e. gameType (snd e)) (queue (run s ops)))"
proof (induction ops arbitrary: s)
  case Nil
  then show ?case by simp
next
  case (Cons x ops)
  obtain ev r where x: "x = (ev, r)" by (cases x)
  from Cons.prems have "distinct (map (\<lambda>e. gameType (snd e)) (queue (handle ev r s)))"
    by (rule handle_tags)
  then show ?case unfolding x by (simp add: Cons.IH)
qed

lemma alone_in_partition:
  assumes "distinct (map (\<lambda>e. gameType (snd e)) q)" and "(p, d) \<in> set q"
  shows "candidates (gameType d) p q = []"
proof -
  have "fst e = p" if "e \<in> set q" "gameType (snd e) = gameType d" for e
  proof -
    from assms(1) have inj: "inj_on (\<lambda>e. gameType (snd e)) (set q)"
      by (simp add: distinct_map)
    from inj_onD [OF inj, of e "(p, d)"] that assms(2) have "e = (p, d)" by simp
    then show ?thesis by simp
  qed
  then show ?thesis by (auto simp: candidates_empty_iff)
qed

text \<open>
  With at most one candidate to choose from, the rating given to the search does not
  matter.
\<close>

lemma candidates_at_most_one:
  "distinct (map (\<lambda>e. gameType (snd e)) q) \<Longrightarrow>
   candidates gt p q = [] \<or> (\<exists>c. candidates gt p q = [c])"
proof (induction q)
  case Nil
  show ?case by (simp add: candidates_def)
next
  case (Cons e q)
  show ?case
  proof (cases "gameType (snd e) = gt")
    case True
    from Cons.prems have notin: "gameType (snd e) \<notin> (\<lambda>x. gameType (snd x)) ` set q"
      by simp
    have "gameType (snd x) \<noteq> gt" if "x \<in> set q" for x
    proof
      assume "gameType (snd x) = gt"
      with True have "gameType (snd e) = (\<lambda>x. gameType (snd x)) x" by simp
      then have "gameType (snd e) \<in> (\<lambda>x. gameType (snd x)) ` set q"
        using that by (rule image_eqI)
      with notin show False by simp
    qed
    then have "candidates gt p q = []"
      by (simp add: candidates_def filter_empty_conv)
    then show ?thesis by (simp add: candidates_def)
  next
    case False
    then have "candidates gt p (e # q) = candidates gt p q"
      by (simp add: candidates_def)
    with Cons show ?thesis by simp
  qed
qed

lemma findBestMatch_any_rating:
  assumes "distinct (map (\<lambda>e. gameType (snd e)) q)"
  shows "findBestMatch q r gt p = findBestMatch q r' gt p"
  using candidates_at_most_one [OF assms, of gt p]
  by (auto simp: findBestMatch_eq nearest_first_def)

section \<open>The claims\<close>

subsection \<open>C1: one entry per player\<close>

text \<open>
  C1, as the code has it. After any sequence of start, cancel, status and clean-up steps
  from the empty queue, no two entries of the queue have the same player id, and a player
  in the queue is the only one waiting for the game type of their entry. A start request
  of a known player who is already in the queue, when no other player waits for the
  requested game type (so always when the request is for the game type the player already
  waits for), replaces the old entry by a single new one (the looked-up rating, the current
  time, the requested game type) at the end of the queue, and answers \<open>Searching\<close>.
  When another player waits for the requested game type, the old entry is removed and none
  is put back, so the player is not in the queue afterwards, whatever the answer: the
  answer is \<open>MatchFound\<close> with the candidate the search selects when the lookup of that
  opponent and the game creation go through, and the 500 failure otherwise.
\<close>

theorem queue_keys_unique:
  "(distinct (map fst (queue (run \<lparr>queue = [], games = gs\<rparr> ops)))
    \<and> ((p, d) \<in> set (queue (run \<lparr>queue = [], games = gs\<rparr> ops))
          \<longrightarrow> candidates (gameType d) p (queue (run \<lparr>queue = [], games = gs\<rparr> ops)) = []))
   \<and> (queue_has (queue s) p \<and> user_findUnique ev p = Resolved (Some usr) \<longrightarrow>
       (candidates gt p (queue s) = [] \<longrightarrow>
          startMatchmaking ev s p gt =
            (s\<lparr>queue := queue_delete (queue s) p
                 @ [(p, \<lparr>rating = user_rating usr, timestamp = now ev, gameType = gt\<rparr>)]\<rparr>,
             Searching (length (queue_delete (queue s) p) + 1))
          \<and> filter (\<lambda>e. fst e = p) (queue (fst (startMatchmaking ev s p gt)))
              = [(p, \<lparr>rating = user_rating usr, timestamp = now ev, gameType = gt\<rparr>)])
       \<and> (candidates gt p (queue s) \<noteq> [] \<longrightarrow>
            \<not> queue_has (queue (fst (startMatchmaking ev s p gt))) p
            \<and> (\<exists>c. findBestMatch (queue_delete (queue s) p) (user_rating usr) gt p = Some c
                  \<and> snd (startMatchmaking ev s p gt)
                      = (if user_findUnique ev (fst c) \<noteq> Rejected \<and> game_create_ok ev
                         then MatchFound (match_of gt (fst c) p (now ev))
                         else Failure))))"
proof (intro conjI impI)
  show "distinct (map fst (queue (run \<lparr>queue = [], games = gs\<rparr> ops)))"
    by (rule run_distinct) simp
next
  assume "(p, d) \<in> set (queue (run \<lparr>queue = [], games = gs\<rparr> ops))"
  moreover have "distinct (map (\<lambda>e. gameType (snd e)) (queue (run \<lparr>queue = [], games = gs\<rparr> ops)))"
    by (rule run_tags) simp
  ultimately show "candidates (gameType d) p (queue (run \<lparr>queue = [], games = gs\<rparr> ops)) = []"
    by (simp add: alone_in_partition)
next
  assume a: "queue_has (queue s) p \<and> user_findUnique ev p = Resolved (Some usr)"
    and none: "candidates gt p (queue s) = []"
  from a none show eq: "startMatchmaking ev s p gt =
            (s\<lparr>queue := queue_delete (queue s) p
                 @ [(p, \<lparr>rating = user_rating usr, timestamp = now ev, gameType = gt\<rparr>)]\<rparr>,
             Searching (length (queue_delete (queue s) p) + 1))"
    by (simp add: startMatchmaking_no_candidate)
  have "filter (\<lambda>e. fst e = p) (queue_delete (queue s) p) = []"
    by (simp add: queue_delete_def filter_empty_conv)
  then show "filter (\<lambda>e. fst e = p) (queue (fst (startMatchmaking ev s p gt)))
              = [(p, \<lparr>rating = user_rating usr, timestamp = now ev, gameType = gt\<rparr>)]"
    unfolding eq by simp
next
  assume a: "queue_has (queue s) p \<and> user_findUnique ev p = Resolved (Some usr)"
    and some: "candidates gt p (queue s) \<noteq> []"
  from some have "findBestMatch (queue_delete (queue s) p) (user_rating usr) gt p \<noteq> None"
    by (simp add: findBestMatch_None_iff candidates_delete_requester)
  then obtain c where
    c: "findBestMatch (queue_delete (queue s) p) (user_rating usr) gt p = Some c"
    by blast
  from a c have "queue (fst (startMatchmaking ev s p gt))
      = queue_delete (queue_delete (queue s) p) (fst c)"
    by (simp add: startMatchmaking_candidate_queue)
  then show "\<not> queue_has (queue (fst (startMatchmaking ev s p gt))) p"
    by (simp add: queue_has_delete)
  from a have usr: "user_findUnique ev p = Resolved (Some usr)" by simp
  have "snd (startMatchmaking ev s p gt)
          = (if user_findUnique ev (fst c) \<noteq> Rejected \<and> game_create_ok ev
             then MatchFound (match_of gt (fst c) p (now ev))
             else Failure)"
    unfolding startMatchmaking_candidate [OF usr c] by simp
  with c show "\<exists>c. findBestMatch (queue_delete (queue s) p) (user_rating usr) gt p = Some c
                  \<and> snd (startMatchmaking ev s p gt)
                      = (if user_findUnique ev (fst c) \<noteq> Rejected \<and> game_create_ok ev
                         then MatchFound (match_of gt (fst c) p (now ev))
                         else Failure)"
    by blast
qed

theorem queue_keys_unique_witness:
  "(run \<lparr>queue = [], games = []\<rparr> two_started = mixed_waiting
    \<and> distinct (map fst (queue mixed_waiting))
    \<and> (''alice'', waiting 1000 10 ''ayo'') \<in> set (queue mixed_waiting)
    \<and> queue_has (queue mixed_waiting) ''alice''
    \<and> candidates ''ayo'' ''alice'' (queue mixed_waiting) = []
    \<and> startMatchmaking (demo_env 500) mixed_waiting ''alice'' ''ayo''
        = (\<lparr>queue = [(''bob'', waiting 1050 20 ''chess''), (''alice'', waiting 1000 500 ''ayo'')],
             games = []\<rparr>, Searching 2))
   \<and> (candidates ''chess'' ''alice'' (queue mixed_waiting) \<noteq> []
    \<and> \<not> queue_has (queue (fst (startMatchmaking (demo_env 500) mixed_waiting ''alice'' ''chess'')))
          ''alice''
    \<and> snd (startMatchmaking (demo_env 500) mixed_waiting ''alice'' ''chess'')
        = MatchFound (match_of ''chess'' ''bob'' ''alice'' 500))
   \<and> (\<not> game_create_ok (demo_env_create_fails 500)
    \<and> \<not> queue_has
          (queue (fst (startMatchmaking (demo_env_create_fails 500) mixed_waiting ''alice'' ''chess'')))
          ''alice''
    \<and> snd (startMatchmaking (demo_env_create_fails 500) mixed_waiting ''alice'' ''chess'')
        = Failure)"
proof -
  have same: "run \<lparr>queue = [], games = []\<rparr> two_started = mixed_waiting
    \<and> distinct (map fst (queue mixed_waiting))
    \<and> (''alice'', waiting 1000 10 ''ayo'') \<in> set (queue mixed_waiting)
    \<and> queue_has (queue mixed_waiting) ''alice''
    \<and> candidates ''ayo'' ''alice'' (queue mixed_waiting) = []
    \<and> startMatchmaking (demo_env 500) mixed_waiting ''alice'' ''ayo''
        = (\<lparr>queue = [(''bob'', waiting 1050 20 ''chess''), (''alice'', waiting 1000 500 ''ayo'')],
             games = []\<rparr>, Searching 2)"
    using queue_keys_unique [where gs = "[]" and ops = two_started and s = mixed_waiting
        and p = "''alice''" and d = "waiting 1000 10 ''ayo''" and ev = "demo_env 500"
        and gt = "''ayo''"
        and usr = "\<lparr>user_id = ''alice'', user_name = Some ''Alice'', user_rating = 1000\<rparr>"]
    by (simp add: run_defs)
  have other: "candidates ''chess'' ''alice'' (queue mixed_waiting) \<noteq> []
    \<and> \<not> queue_has (queue (fst (startMatchmaking (demo_env 500) mixed_waiting ''alice'' ''chess'')))
          ''alice''
    \<and> snd (startMatchmaking (demo_env 500) mixed_waiting ''alice'' ''chess'')
        = MatchFound (match_of ''chess'' ''bob'' ''alice'' 500)"
    using queue_keys_unique [where gs = "[]" and ops = two_started and s = mixed_waiting
        and p = "''alice''" and d = "waiting 1000 10 ''ayo''" and ev = "demo_env 500"
        and gt = "''chess''"
        and usr = "\<lparr>user_id = ''alice'', user_name = Some ''Alice'', user_rating = 1000\<rparr>"]
    by (simp add: run_defs)
  have failing: "\<not> game_create_ok (demo_env_create_fails 500)
    \<and> \<not> queue_has
          (queue (fst (startMatchmaking (demo_env_create_fails 500) mixed_waiting ''alice'' ''chess'')))
          ''alice''
    \<and> snd (startMatchmaking (demo_env_create_fails 500) mixed_waiting ''alice'' ''chess'')
        = Failure"
    using queue_keys_unique [where gs = "[]" and ops = two_started and s = mixed_waiting
        and p = "''alice''" and d = "waiting 1000 10 ''ayo''"
        and ev = "demo_env_create_fails 500" and gt = "''chess''"
        and usr = "\<lparr>user_id = ''alice'', user_name = Some ''Alice'', user_rating = 1000\<rparr>"]
    by (simp add: run_defs)
  show ?thesis by (rule conjI [OF same conjI [OF other failing]])
qed

text \<open>
  The claim as worded (every start request of a player already in the queue leaves that
  player with a single, new entry) fails when the player asks for a game type somebody
  else waits for: alice waits for \<open>ayo\<close>, bob for \<open>chess\<close>; alice sends start
  for \<open>chess\<close>, is matched with bob, and has no entry.
\<close>

theorem requeue_with_opponent_waiting_counterexample:
  "run \<lparr>queue = [], games = []\<rparr> two_started = mixed_waiting
   \<and> queue_has (queue mixed_waiting) ''alice''
   \<and> startMatchmaking (demo_env 500) mixed_waiting ''alice'' ''chess''
       = (\<lparr>queue = [], games = [match_of ''chess'' ''bob'' ''alice'' 500]\<rparr>,
          MatchFound (match_of ''chess'' ''bob'' ''alice'' 500))"
  by (simp add: run_defs)

subsection \<open>C2: the search\<close>

text \<open>
  C2. For every queue, requester rating, game type and requester id, \<open>findBestMatch\<close>
  looks at exactly the entries whose game type is the requested one and whose player id
  is not the requester's (\<open>candidates\<close>), returns nothing when there is none, and
  otherwise returns the first entry, in the iteration order of the map, whose distance
  \<open>|candidate.rating - requester.rating|\<close> is the least among them. The statement is
  about every content of the map; in the states the handlers reach from the empty queue
  there is at most one candidate to choose from.
\<close>

theorem findBestMatch_nearest_first:
  "findBestMatch q r gt requester = nearest_first r (candidates gt requester q)"
  by (simp add: findBestMatch_def findBestMatch_loop_from_null)

theorem findBestMatch_nearest_first_witness:
  "findBestMatch
     [(''alice'', waiting 1200 0 ''ayo''), (''bob'', waiting 900 1 ''ayo''),
      (''carol'', waiting 1100 2 ''ayo''), (''dave'', waiting 1000 3 ''chess''),
      (''erin'', waiting 1000 4 ''ayo'')] 1000 ''ayo'' ''erin''
     = Some (''bob'', waiting 900 1 ''ayo'')
   \<and> candidates ''ayo'' ''erin''
     [(''alice'', waiting 1200 0 ''ayo''), (''bob'', waiting 900 1 ''ayo''),
      (''carol'', waiting 1100 2 ''ayo''), (''dave'', waiting 1000 3 ''chess''),
      (''erin'', waiting 1000 4 ''ayo'')]
     = [(''alice'', waiting 1200 0 ''ayo''), (''bob'', waiting 900 1 ''ayo''),
        (''carol'', waiting 1100 2 ''ayo'')]"
  using findBestMatch_nearest_first [of
     "[(''alice'', waiting 1200 0 ''ayo''), (''bob'', waiting 900 1 ''ayo''),
      (''carol'', waiting 1100 2 ''ayo''), (''dave'', waiting 1000 3 ''chess''),
      (''erin'', waiting 1000 4 ''ayo'')]" 1000 "''ayo''" "''erin''"]
  by (simp add: run_defs)

subsection \<open>C3: the second of two players is matched with the first\<close>

text \<open>
  C3. From the empty queue, player A asks for a game type and then another player B asks
  for the same one, both known to the user lookup, the lookup of A as opponent answering
  and the game creation going through. Then A's request answers \<open>Searching 1\<close> and
  leaves A's entry alone in the queue, and B's request answers \<open>MatchFound\<close> with a
  game whose first player is A and whose second is B, and leaves the queue empty, so with
  no entry of that game type: A's entry is removed and B is never inserted. This holds for
  all ratings, those of the claim (1000 and 1050) among them.
\<close>

theorem second_player_matches_first:
  assumes "A \<noteq> B"
    and "user_findUnique evA A = Resolved (Some uA)"
    and "user_findUnique evB B = Resolved (Some uB)"
    and "user_findUnique evB A \<noteq> Rejected"
    and "game_create_ok evB"
  shows "startMatchmaking evA \<lparr>queue = [], games = gs\<rparr> A gt
           = (\<lparr>queue = [(A, \<lparr>rating = user_rating uA, timestamp = now evA, gameType = gt\<rparr>)],
                games = gs\<rparr>, Searching 1)
       \<and> startMatchmaking evB
            \<lparr>queue = [(A, \<lparr>rating = user_rating uA, timestamp = now evA, gameType = gt\<rparr>)],
              games = gs\<rparr> B gt
           = (\<lparr>queue = [], games = gs @ [match_of gt A B (now evB)]\<rparr>,
              MatchFound (match_of gt A B (now evB)))"
  using assms
  by (simp add: startMatchmaking_def findBestMatch_def queue_has_def queue_delete_def
        queue_size_def match_of_def Let_def split: awaited.splits)

theorem second_player_matches_first_witness:
  "user_rating \<lparr>user_id = ''alice'', user_name = Some ''Alice'', user_rating = 1000\<rparr> = 1000
   \<and> user_rating \<lparr>user_id = ''bob'', user_name = None, user_rating = 1050\<rparr> = 1050
   \<and> startMatchmaking (demo_env 10) \<lparr>queue = [], games = []\<rparr> ''alice'' ''ayo''
       = (\<lparr>queue = [(''alice'', \<lparr>rating = 1000, timestamp = 10, gameType = ''ayo''\<rparr>)],
            games = []\<rparr>, Searching 1)
   \<and> startMatchmaking (demo_env 20)
        \<lparr>queue = [(''alice'', \<lparr>rating = 1000, timestamp = 10, gameType = ''ayo''\<rparr>)],
          games = []\<rparr> ''bob'' ''ayo''
       = (\<lparr>queue = [], games = [match_of ''ayo'' ''alice'' ''bob'' 20]\<rparr>,
          MatchFound (match_of ''ayo'' ''alice'' ''bob'' 20))"
  using second_player_matches_first [where A = "''alice''" and B = "''bob''"
      and evA = "demo_env 10" and evB = "demo_env 20" and gs = "[]" and gt = "''ayo''"
      and uA = "\<lparr>user_id = ''alice'', user_name = Some ''Alice'', user_rating = 1000\<rparr>"
      and uB = "\<lparr>user_id = ''bob'', user_name = None, user_rating = 1050\<rparr>"]
  by (simp add: demo_env_def demo_users_def)

subsection \<open>C4: nobody is matched with themselves\<close>

text \<open>
  C4. In every state whose games table holds no game of a player against themselves (the
  handlers keep it so, last two parts), no \<open>MatchFound\<close> answer of
  \<open>startMatchmaking\<close> or of \<open>checkMatchmakingStatus\<close> carries a game whose two players
  are the same; and a player who polls while their own entry is the only one of the polled
  game type gets no match at all.
\<close>

theorem never_matched_with_self:
  assumes "\<forall>x\<in>set (games s). player2Id x \<noteq> Some (player1Id x)"
  shows "(startMatchmaking ev s p gt = (s', MatchFound g) \<longrightarrow> player2Id g \<noteq> Some (player1Id g))
       \<and> (checkMatchmakingStatus ev s p gt = (s', MatchFound g)
            \<longrightarrow> player2Id g \<noteq> Some (player1Id g))
       \<and> (queue_has (queue s) p \<and> (\<forall>e\<in>set (queue s). gameType (snd e) = gt \<longrightarrow> fst e = p)
            \<longrightarrow> (\<forall>x. snd (checkMatchmakingStatus ev s p gt) \<noteq> MatchFound x))
       \<and> (\<forall>x\<in>set (games (fst (startMatchmaking ev s p gt))). player2Id x \<noteq> Some (player1Id x))
       \<and> (\<forall>x\<in>set (games (fst (checkMatchmakingStatus ev s p gt))).
             player2Id x \<noteq> Some (player1Id x))"
proof (intro conjI impI)
  assume "startMatchmaking ev s p gt = (s', MatchFound g)"
  from startMatchmaking_MatchFoundD [OF this] obtain usr :: user and c where
    "findBestMatch (queue_delete (queue s) p) (user_rating usr) gt p = Some c"
    "g = match_of gt (fst c) p (now ev)"
    by blast
  then show "player2Id g \<noteq> Some (player1Id g)"
    using findBestMatch_SomeD [of "queue_delete (queue s) p" "user_rating usr" gt p c]
    by (auto simp: match_of_def)
next
  assume "checkMatchmakingStatus ev s p gt = (s', MatchFound g)"
  from checkMatchmakingStatus_MatchFoundD [OF this] consider
    (recent) "game_findFirst (games s) p gt (now ev) = Some g"
  | (search) usr :: user and c where "findBestMatch (queue s) (user_rating usr) gt p = Some c"
      "g = match_of gt p (fst c) (now ev)"
    by blast
  then show "player2Id g \<noteq> Some (player1Id g)"
  proof cases
    case recent
    then have "g \<in> set (games s)" by (simp add: game_findFirst_SomeD)
    with assms show ?thesis by blast
  next
    case search
    then show ?thesis
      using findBestMatch_SomeD [of "queue s" "user_rating usr" gt p c]
      by (auto simp: match_of_def)
  qed
next
  assume lone: "queue_has (queue s) p \<and> (\<forall>e\<in>set (queue s). gameType (snd e) = gt \<longrightarrow> fst e = p)"
  then have "\<And>r. findBestMatch (queue s) r gt p = None"
    by (simp add: findBestMatch_None_iff candidates_empty_iff)
  with lone show "\<forall>x. snd (checkMatchmakingStatus ev s p gt) \<noteq> MatchFound x"
    by (simp add: checkMatchmakingStatus_def split: awaited.splits option.splits)
next
  show "\<forall>x\<in>set (games (fst (startMatchmaking ev s p gt))). player2Id x \<noteq> Some (player1Id x)"
    using assms startMatchmaking_games [of ev s p gt] by (auto simp: match_of_def)
next
  show "\<forall>x\<in>set (games (fst (checkMatchmakingStatus ev s p gt))). player2Id x \<noteq> Some (player1Id x)"
    using assms checkMatchmakingStatus_games [of ev s p gt] by (auto simp: match_of_def)
qed

theorem never_matched_with_self_witness:
  "(list_all (\<lambda>x. player2Id x \<noteq> Some (player1Id x)) (games lone_waiting)
    \<and> queue_has (queue lone_waiting) ''alice''
    \<and> list_all (\<lambda>e. gameType (snd e) = ''ayo'' \<longrightarrow> fst e = ''alice'') (queue lone_waiting)
    \<and> checkMatchmakingStatus (demo_env 30) lone_waiting ''alice'' ''ayo''
         = (lone_waiting, StatusSearching 2))
   \<and> (checkMatchmakingStatus (demo_env 30) mixed_waiting ''alice'' ''chess''
         = (\<lparr>queue = [], games = [match_of ''chess'' ''alice'' ''bob'' 30]\<rparr>,
            MatchFound (match_of ''chess'' ''alice'' ''bob'' 30))
    \<and> player2Id (match_of ''chess'' ''alice'' ''bob'' 30)
         \<noteq> Some (player1Id (match_of ''chess'' ''alice'' ''bob'' 30)))
   \<and> (startMatchmaking (demo_env 30) mixed_waiting ''carol'' ''ayo''
         = (\<lparr>queue = [(''bob'', waiting 1050 20 ''chess'')],
              games = [match_of ''ayo'' ''alice'' ''carol'' 30]\<rparr>,
            MatchFound (match_of ''ayo'' ''alice'' ''carol'' 30))
    \<and> player2Id (match_of ''ayo'' ''alice'' ''carol'' 30)
         \<noteq> Some (player1Id (match_of ''ayo'' ''alice'' ''carol'' 30)))"
proof -
  have lone: "list_all (\<lambda>x. player2Id x \<noteq> Some (player1Id x)) (games lone_waiting)
    \<and> queue_has (queue lone_waiting) ''alice''
    \<and> list_all (\<lambda>e. gameType (snd e) = ''ayo'' \<longrightarrow> fst e = ''alice'') (queue lone_waiting)
    \<and> checkMatchmakingStatus (demo_env 30) lone_waiting ''alice'' ''ayo''
         = (lone_waiting, StatusSearching 2)"
    using never_matched_with_self [where s = lone_waiting and ev = "demo_env 30"
        and p = "''alice''" and gt = "''ayo''" and s' = lone_waiting
        and g = "match_of ''ayo'' ''dave'' ''erin'' 5"]
    by (simp add: run_defs)
  have poll: "checkMatchmakingStatus (demo_env 30) mixed_waiting ''alice'' ''chess''
         = (\<lparr>queue = [], games = [match_of ''chess'' ''alice'' ''bob'' 30]\<rparr>,
            MatchFound (match_of ''chess'' ''alice'' ''bob'' 30))
    \<and> player2Id (match_of ''chess'' ''alice'' ''bob'' 30)
         \<noteq> Some (player1Id (match_of ''chess'' ''alice'' ''bob'' 30))"
    using never_matched_with_self [where s = mixed_waiting and ev = "demo_env 30"
        and p = "''alice''" and gt = "''chess''" and g = "match_of ''chess'' ''alice'' ''bob'' 30"
        and s' = "\<lparr>queue = [], games = [match_of ''chess'' ''alice'' ''bob'' 30]\<rparr>"]
    by (simp add: run_defs)
  have start: "startMatchmaking (demo_env 30) mixed_waiting ''carol'' ''ayo''
         = (\<lparr>queue = [(''bob'', waiting 1050 20 ''chess'')],
              games = [match_of ''ayo'' ''alice'' ''carol'' 30]\<rparr>,
            MatchFound (match_of ''ayo'' ''alice'' ''carol'' 30))
    \<and> player2Id (match_of ''ayo'' ''alice'' ''carol'' 30)
         \<noteq> Some (player1Id (match_of ''ayo'' ''alice'' ''carol'' 30))"
    using never_matched_with_self [where s = mixed_waiting and ev = "demo_env 30"
        and p = "''carol''" and gt = "''ayo''" and g = "match_of ''ayo'' ''alice'' ''carol'' 30"
        and s' = "\<lparr>queue = [(''bob'', waiting 1050 20 ''chess'')],
             games = [match_of ''ayo'' ''alice'' ''carol'' 30]\<rparr>"]
    by (simp add: run_defs)
  show ?thesis by (rule conjI [OF lone conjI [OF poll start]])
qed

subsection \<open>C5: matching stays within the requested game type\<close>

text \<open>
  C5, as the code has it. Every match made by a start or status request for game type X
  pairs the requester with a waiting entry, of another player, whose tag is X, and the game
  is of type X; a game found by a status request of a player not in the queue is of type
  X as well. X is the game type sent with the request: for a start request it is also the
  tag the requester would wait under, for a status request it is not compared with the tag
  of the poller's own entry.
\<close>

theorem match_within_requested_gameType:
  "(startMatchmaking ev s p gt = (s', MatchFound g) \<longrightarrow>
      game_gameType g = gt
      \<and> (\<exists>c\<in>set (queue s). fst c = player1Id g \<and> fst c \<noteq> p \<and> gameType (snd c) = gt))
   \<and> (checkMatchmakingStatus ev s p gt = (s', MatchFound g) \<longrightarrow>
      game_gameType g = gt
      \<and> (queue_has (queue s) p \<longrightarrow>
           (\<exists>c\<in>set (queue s). Some (fst c) = player2Id g \<and> fst c \<noteq> p \<and> gameType (snd c) = gt)))"
proof (intro conjI impI)
  assume a: "startMatchmaking ev s p gt = (s', MatchFound g)"
  from startMatchmaking_MatchFoundD [OF a] obtain usr :: user and c where
    c: "findBestMatch (queue_delete (queue s) p) (user_rating usr) gt p = Some c"
    and g: "g = match_of gt (fst c) p (now ev)"
    by blast
  from g show "game_gameType g = gt" by (simp add: match_of_def)
  from findBestMatch_SomeD [OF c] have "c \<in> set (queue s) \<and> fst c \<noteq> p \<and> gameType (snd c) = gt"
    by (simp add: queue_delete_def)
  with g show "\<exists>c\<in>set (queue s). fst c = player1Id g \<and> fst c \<noteq> p \<and> gameType (snd c) = gt"
    by (intro bexI [of _ c]) (simp_all add: match_of_def)
next
  assume a: "checkMatchmakingStatus ev s p gt = (s', MatchFound g)"
  from checkMatchmakingStatus_MatchFoundD [OF a] consider
    (recent) "game_findFirst (games s) p gt (now ev) = Some g"
  | (search) usr :: user and c where "findBestMatch (queue s) (user_rating usr) gt p = Some c"
      "g = match_of gt p (fst c) (now ev)"
    by blast
  then show "game_gameType g = gt"
  proof cases
    case recent
    from game_findFirst_SomeD [OF recent] show ?thesis by (simp add: recentGame_where_def)
  next
    case search
    then show ?thesis by (simp add: match_of_def)
  qed
next
  assume a: "checkMatchmakingStatus ev s p gt = (s', MatchFound g)"
    and has: "queue_has (queue s) p"
  from checkMatchmakingStatus_MatchFoundD [OF a] has obtain usr :: user and c where
    c: "findBestMatch (queue s) (user_rating usr) gt p = Some c"
    and g: "g = match_of gt p (fst c) (now ev)"
    by blast
  from findBestMatch_SomeD [OF c] g
  show "\<exists>c\<in>set (queue s). Some (fst c) = player2Id g \<and> fst c \<noteq> p \<and> gameType (snd c) = gt"
    by (intro bexI [of _ c]) (simp_all add: match_of_def)
qed

theorem match_within_requested_gameType_witness:
  "startMatchmaking (demo_env 30) mixed_waiting ''carol'' ''ayo''
        = (\<lparr>queue = [(''bob'', waiting 1050 20 ''chess'')],
              games = [match_of ''ayo'' ''alice'' ''carol'' 30]\<rparr>,
            MatchFound (match_of ''ayo'' ''alice'' ''carol'' 30))
   \<and> (\<exists>c\<in>set (queue mixed_waiting).
         fst c = player1Id (match_of ''ayo'' ''alice'' ''carol'' 30)
         \<and> fst c \<noteq> ''carol'' \<and> gameType (snd c) = ''ayo'')
   \<and> queue_has (queue mixed_waiting) ''alice''
   \<and> checkMatchmakingStatus (demo_env 30) mixed_waiting ''alice'' ''chess''
        = (\<lparr>queue = [], games = [match_of ''chess'' ''alice'' ''bob'' 30]\<rparr>,
            MatchFound (match_of ''chess'' ''alice'' ''bob'' 30))
   \<and> (\<exists>c\<in>set (queue mixed_waiting).
         Some (fst c) = player2Id (match_of ''chess'' ''alice'' ''bob'' 30)
         \<and> fst c \<noteq> ''alice'' \<and> gameType (snd c) = ''chess'')"
  using
    match_within_requested_gameType [where s = mixed_waiting and ev = "demo_env 30"
      and p = "''alice''" and gt = "''chess''" and g = "match_of ''chess'' ''alice'' ''bob'' 30"
      and s' = "\<lparr>queue = [], games = [match_of ''chess'' ''alice'' ''bob'' 30]\<rparr>"]
    match_within_requested_gameType [where s = mixed_waiting and ev = "demo_env 30"
      and p = "''carol''" and gt = "''ayo''" and g = "match_of ''ayo'' ''alice'' ''carol'' 30"
      and s' = "\<lparr>queue = [(''bob'', waiting 1050 20 ''chess'')],
             games = [match_of ''ayo'' ''alice'' ''carol'' 30]\<rparr>"]
  by (simp add: run_defs)

text \<open>
  The claim as worded (no two entries with different game type tags are ever matched)
  fails in \<open>checkMatchmakingStatus\<close>, which searches with the game type of the poll
  and never reads the tag of the poller's own entry: alice waits for \<open>ayo\<close>, bob for
  \<open>chess\<close>; alice polls with \<open>chess\<close> and is matched with bob.
\<close>

theorem poll_other_gameType_counterexample:
  "run \<lparr>queue = [], games = []\<rparr> two_started = mixed_waiting
   \<and> map (\<lambda>e. (fst e, gameType (snd e))) (queue mixed_waiting)
     = [(''alice'', ''ayo''), (''bob'', ''chess'')]
   \<and> checkMatchmakingStatus (demo_env 30) mixed_waiting ''alice'' ''chess''
     = (\<lparr>queue = [], games = [match_of ''chess'' ''alice'' ''bob'' 30]\<rparr>,
        MatchFound (match_of ''chess'' ''alice'' ''bob'' 30))"
  by (simp add: run_defs)

subsection \<open>C6: the clean-up pass\<close>

text \<open>
  C6, as the code has it. One run of the clean-up pass at time \<open>t\<close> on a queue with one
  entry per player removes exactly the entries whose age \<open>t - timestamp\<close> is more than
  five minutes (300000 ms); the entries of age five minutes or less stay, unchanged and in
  their order, and the games table is untouched. The timer is set to 60000 ms.
\<close>

theorem cleanup_removes_older_than_timeout:
  assumes "distinct (map fst (queue s))"
  shows "queue (cleanup t s) = filter (\<lambda>e. t - timestamp (snd e) \<le> 300000) (queue s)
       \<and> games (cleanup t s) = games s
       \<and> TIMEOUT = 300000 \<and> cleanup_interval = 60000"
  using cleanup_loop_distinct [OF assms, of t]
  by (simp add: cleanup_def TIMEOUT_def cleanup_interval_def)

theorem cleanup_removes_older_than_timeout_witness:
  "distinct (map fst [(''alice'', waiting 1000 0 ''ayo''), (''bob'', waiting 1050 1 ''chess''),
                      (''carol'', waiting 1500 2 ''ludo'')])
   \<and> queue (cleanup 300001
        \<lparr>queue = [(''alice'', waiting 1000 0 ''ayo''), (''bob'', waiting 1050 1 ''chess''),
                  (''carol'', waiting 1500 2 ''ludo'')], games = []\<rparr>)
       = [(''bob'', waiting 1050 1 ''chess''), (''carol'', waiting 1500 2 ''ludo'')]"
  using cleanup_removes_older_than_timeout [where t = 300001 and
      s = "\<lparr>queue = [(''alice'', waiting 1000 0 ''ayo''), (''bob'', waiting 1050 1 ''chess''),
                  (''carol'', waiting 1500 2 ''ludo'')], games = []\<rparr>"]
  by (simp add: waiting_def)

text \<open>
  The claim as worded (an entry whose age is at least five minutes is gone) fails at an
  age of exactly five minutes: the test of the loop is \<open>now - data.timestamp > TIMEOUT\<close>.
\<close>

theorem cleanup_at_five_minutes_counterexample:
  "300000 - timestamp (waiting 1000 0 ''ayo'') \<ge> 5 * 60 * 1000
   \<and> cleanup 300000 \<lparr>queue = [(''alice'', waiting 1000 0 ''ayo'')], games = []\<rparr>
       = \<lparr>queue = [(''alice'', waiting 1000 0 ''ayo'')], games = []\<rparr>"
  by (simp add: run_defs)

subsection \<open>C7: the waiting answer\<close>

text \<open>
  C7, as the code has it. When \<open>startMatchmaking\<close> finds no candidate (the requester is
  known and no other player's entry has the requested game type), it puts a new entry for
  the requester, with the current time, at the end of the queue and answers
  \<open>Searching n\<close> where \<open>n\<close> is the number of entries of the whole queue, all game
  types together, the new entry included; the requester's own partition then holds the new
  entry only.
\<close>

theorem waiting_answer_counts_whole_queue:
  assumes "user_findUnique ev p = Resolved (Some usr)"
    and "\<forall>e\<in>set (queue s). gameType (snd e) = gt \<longrightarrow> fst e = p"
  shows "queue (fst (startMatchmaking ev s p gt))
           = queue_delete (queue s) p
               @ [(p, \<lparr>rating = user_rating usr, timestamp = now ev, gameType = gt\<rparr>)]
       \<and> snd (startMatchmaking ev s p gt)
           = Searching (length (queue (fst (startMatchmaking ev s p gt))))
       \<and> filter (\<lambda>e. gameType (snd e) = gt) (queue (fst (startMatchmaking ev s p gt)))
           = [(p, \<lparr>rating = user_rating usr, timestamp = now ev, gameType = gt\<rparr>)]"
proof -
  from assms(2) have none: "candidates gt p (queue s) = []"
    by (simp add: candidates_empty_iff)
  have "filter (\<lambda>e. gameType (snd e) = gt) (queue_delete (queue s) p) = []"
    using assms(2) by (auto simp: queue_delete_def filter_empty_conv)
  then show ?thesis
    unfolding startMatchmaking_no_candidate [OF assms(1) none] by simp
qed

theorem waiting_answer_counts_whole_queue_witness:
  "user_findUnique (demo_env 20) ''bob''
     = Resolved (Some \<lparr>user_id = ''bob'', user_name = None, user_rating = 1050\<rparr>)
   \<and> list_all (\<lambda>e. gameType (snd e) = ''ayo'' \<longrightarrow> fst e = ''bob'')
         [(''alice'', waiting 1000 10 ''chess''), (''bob'', waiting 1050 5 ''ayo'')]
   \<and> startMatchmaking (demo_env 20)
        \<lparr>queue = [(''alice'', waiting 1000 10 ''chess''), (''bob'', waiting 1050 5 ''ayo'')],
          games = []\<rparr> ''bob'' ''ayo''
       = (\<lparr>queue = [(''alice'', waiting 1000 10 ''chess''), (''bob'', waiting 1050 20 ''ayo'')],
            games = []\<rparr>, Searching 2)"
  using waiting_answer_counts_whole_queue [where ev = "demo_env 20" and p = "''bob''"
      and gt = "''ayo''"
      and usr = "\<lparr>user_id = ''bob'', user_name = None, user_rating = 1050\<rparr>"
      and s = "\<lparr>queue = [(''alice'', waiting 1000 10 ''chess''), (''bob'', waiting 1050 5 ''ayo'')],
          games = []\<rparr>"]
  by (simp add: run_defs)

text \<open>
  The claim as worded (the number in the answer is the size of the requester's game type
  partition) fails as soon as a player waits for another game type: alice waits for
  \<open>chess\<close>, bob asks for \<open>ayo\<close> and is told 2, while one entry is tagged
  \<open>ayo\<close>.
\<close>

theorem queue_position_other_gameType_counterexample:
  "startMatchmaking (demo_env 20) \<lparr>queue = [(''alice'', waiting 1000 10 ''chess'')], games = []\<rparr>
       ''bob'' ''ayo''
     = (\<lparr>queue = [(''alice'', waiting 1000 10 ''chess''), (''bob'', waiting 1050 20 ''ayo'')],
          games = []\<rparr>, Searching 2)
   \<and> length (filter (\<lambda>e. gameType (snd e) = ''ayo'')
        [(''alice'', waiting 1000 10 ''chess''), (''bob'', waiting 1050 20 ''ayo'')]) = 1"
  by (simp add: run_defs)

subsection \<open>C8: who moves first\<close>

text \<open>
  C8. A match made by \<open>startMatchmaking\<close> names the candidate found in the queue as
  \<open>player1Id\<close> and \<open>currentTurn\<close> and the requester as \<open>player2Id\<close>; a match
  made by \<open>checkMatchmakingStatus\<close> for a player in the queue names the polling
  requester as \<open>player1Id\<close> and \<open>currentTurn\<close> and the candidate as \<open>player2Id\<close>.
  The first two parts say so of every \<open>MatchFound\<close> answer, the last two that the
  answer is given whenever a candidate is found and the collaborators go through.
\<close>

theorem first_player_by_operation:
  "(startMatchmaking ev s p gt = (s', MatchFound g) \<longrightarrow>
      (\<exists>usr c. user_findUnique ev p = Resolved (Some usr)
         \<and> findBestMatch (queue_delete (queue s) p) (user_rating usr) gt p = Some c
         \<and> player1Id g = fst c \<and> currentTurn g = Some (fst c) \<and> player2Id g = Some p))
   \<and> (queue_has (queue s) p \<and> checkMatchmakingStatus ev s p gt = (s', MatchFound g) \<longrightarrow>
      (\<exists>usr c. user_findUnique ev p = Resolved (Some usr)
         \<and> findBestMatch (queue s) (user_rating usr) gt p = Some c
         \<and> player1Id g = p \<and> currentTurn g = Some p \<and> player2Id g = Some (fst c)))
   \<and> (user_findUnique ev p = Resolved (Some u)
       \<and> findBestMatch (queue_delete (queue s) p) (user_rating u) gt p = Some b
       \<and> user_findUnique ev (fst b) \<noteq> Rejected \<and> game_create_ok ev \<longrightarrow>
         snd (startMatchmaking ev s p gt) = MatchFound (match_of gt (fst b) p (now ev)))
   \<and> (queue_has (queue s) p \<and> user_findUnique ev p = Resolved (Some u)
       \<and> findBestMatch (queue s) (user_rating u) gt p = Some b \<and> game_create_ok ev \<longrightarrow>
         snd (checkMatchmakingStatus ev s p gt) = MatchFound (match_of gt p (fst b) (now ev)))"
proof (intro conjI impI)
  assume a: "startMatchmaking ev s p gt = (s', MatchFound g)"
  from startMatchmaking_MatchFoundD [OF a] obtain usr :: user and c where
    "user_findUnique ev p = Resolved (Some usr)"
    "findBestMatch (queue_delete (queue s) p) (user_rating usr) gt p = Some c"
    "g = match_of gt (fst c) p (now ev)"
    by blast
  then have "user_findUnique ev p = Resolved (Some usr)
         \<and> findBestMatch (queue_delete (queue s) p) (user_rating usr) gt p = Some c
         \<and> player1Id g = fst c \<and> currentTurn g = Some (fst c) \<and> player2Id g = Some p"
    by (simp add: match_of_def)
  then show "\<exists>usr c. user_findUnique ev p = Resolved (Some usr)
         \<and> findBestMatch (queue_delete (queue s) p) (user_rating usr) gt p = Some c
         \<and> player1Id g = fst c \<and> currentTurn g = Some (fst c) \<and> player2Id g = Some p"
    by blast
next
  assume a: "queue_has (queue s) p \<and> checkMatchmakingStatus ev s p gt = (s', MatchFound g)"
  then have "checkMatchmakingStatus ev s p gt = (s', MatchFound g)" and "queue_has (queue s) p"
    by simp_all
  from checkMatchmakingStatus_MatchFoundD [OF this(1)] this(2) obtain usr :: user and c where
    "user_findUnique ev p = Resolved (Some usr)"
    "findBestMatch (queue s) (user_rating usr) gt p = Some c"
    "g = match_of gt p (fst c) (now ev)"
    by blast
  then have "user_findUnique ev p = Resolved (Some usr)
         \<and> findBestMatch (queue s) (user_rating usr) gt p = Some c
         \<and> player1Id g = p \<and> currentTurn g = Some p \<and> player2Id g = Some (fst c)"
    by (simp add: match_of_def)
  then show "\<exists>usr c. user_findUnique ev p = Resolved (Some usr)
         \<and> findBestMatch (queue s) (user_rating usr) gt p = Some c
         \<and> player1Id g = p \<and> currentTurn g = Some p \<and> player2Id g = Some (fst c)"
    by blast
next
  assume "user_findUnique ev p = Resolved (Some u)
       \<and> findBestMatch (queue_delete (queue s) p) (user_rating u) gt p = Some b
       \<and> user_findUnique ev (fst b) \<noteq> Rejected \<and> game_create_ok ev"
  then show "snd (startMatchmaking ev s p gt) = MatchFound (match_of gt (fst b) p (now ev))"
    by (simp add: startMatchmaking_candidate)
next
  assume "queue_has (queue s) p \<and> user_findUnique ev p = Resolved (Some u)
       \<and> findBestMatch (queue s) (user_rating u) gt p = Some b \<and> game_create_ok ev"
  then show "snd (checkMatchmakingStatus ev s p gt) = MatchFound (match_of gt p (fst b) (now ev))"
    by (simp add: checkMatchmakingStatus_candidate)
qed

theorem first_player_by_operation_witness:
  "(startMatchmaking (demo_env 30) mixed_waiting ''carol'' ''ayo''
         = (\<lparr>queue = [(''bob'', waiting 1050 20 ''chess'')],
              games = [match_of ''ayo'' ''alice'' ''carol'' 30]\<rparr>,
            MatchFound (match_of ''ayo'' ''alice'' ''carol'' 30))
    \<and> findBestMatch (queue_delete (queue mixed_waiting) ''carol'') 1500 ''ayo'' ''carol''
         = Some (''alice'', waiting 1000 10 ''ayo'')
    \<and> player1Id (match_of ''ayo'' ''alice'' ''carol'' 30) = ''alice''
    \<and> currentTurn (match_of ''ayo'' ''alice'' ''carol'' 30) = Some ''alice''
    \<and> player2Id (match_of ''ayo'' ''alice'' ''carol'' 30) = Some ''carol'')
   \<and> (queue_has (queue mixed_waiting) ''alice''
    \<and> checkMatchmakingStatus (demo_env 30) mixed_waiting ''alice'' ''chess''
         = (\<lparr>queue = [], games = [match_of ''chess'' ''alice'' ''bob'' 30]\<rparr>,
            MatchFound (match_of ''chess'' ''alice'' ''bob'' 30))
    \<and> findBestMatch (queue mixed_waiting) 1000 ''chess'' ''alice''
         = Some (''bob'', waiting 1050 20 ''chess'')
    \<and> player1Id (match_of ''chess'' ''alice'' ''bob'' 30) = ''alice''
    \<and> currentTurn (match_of ''chess'' ''alice'' ''bob'' 30) = Some ''alice''
    \<and> player2Id (match_of ''chess'' ''alice'' ''bob'' 30) = Some ''bob'')"
proof -
  have start: "startMatchmaking (demo_env 30) mixed_waiting ''carol'' ''ayo''
         = (\<lparr>queue = [(''bob'', waiting 1050 20 ''chess'')],
              games = [match_of ''ayo'' ''alice'' ''carol'' 30]\<rparr>,
            MatchFound (match_of ''ayo'' ''alice'' ''carol'' 30))
    \<and> findBestMatch (queue_delete (queue mixed_waiting) ''carol'') 1500 ''ayo'' ''carol''
         = Some (''alice'', waiting 1000 10 ''ayo'')
    \<and> player1Id (match_of ''ayo'' ''alice'' ''carol'' 30) = ''alice''
    \<and> currentTurn (match_of ''ayo'' ''alice'' ''carol'' 30) = Some ''alice''
    \<and> player2Id (match_of ''ayo'' ''alice'' ''carol'' 30) = Some ''carol''"
    using first_player_by_operation [where s = mixed_waiting and ev = "demo_env 30"
        and p = "''carol''" and gt = "''ayo''" and g = "match_of ''ayo'' ''alice'' ''carol'' 30"
        and s' = "\<lparr>queue = [(''bob'', waiting 1050 20 ''chess'')],
             games = [match_of ''ayo'' ''alice'' ''carol'' 30]\<rparr>"
        and u = "\<lparr>user_id = ''carol'', user_name = Some ''Carol'', user_rating = 1500\<rparr>"
        and b = "(''alice'', waiting 1000 10 ''ayo'')"]
    by (simp add: run_defs)
  have poll: "queue_has (queue mixed_waiting) ''alice''
    \<and> checkMatchmakingStatus (demo_env 30) mixed_waiting ''alice'' ''chess''
         = (\<lparr>queue = [], games = [match_of ''chess'' ''alice'' ''bob'' 30]\<rparr>,
            MatchFound (match_of ''chess'' ''alice'' ''bob'' 30))
    \<and> findBestMatch (queue mixed_waiting) 1000 ''chess'' ''alice''
         = Some (''bob'', waiting 1050 20 ''chess'')
    \<and> player1Id (match_of ''chess'' ''alice'' ''bob'' 30) = ''alice''
    \<and> currentTurn (match_of ''chess'' ''alice'' ''bob'' 30) = Some ''alice''
    \<and> player2Id (match_of ''chess'' ''alice'' ''bob'' 30) = Some ''bob''"
    using first_player_by_operation [where s = mixed_waiting and ev = "demo_env 30"
        and p = "''alice''" and gt = "''chess''" and g = "match_of ''chess'' ''alice'' ''bob'' 30"
        and s' = "\<lparr>queue = [], games = [match_of ''chess'' ''alice'' ''bob'' 30]\<rparr>"
        and u = "\<lparr>user_id = ''alice'', user_name = Some ''Alice'', user_rating = 1000\<rparr>"
        and b = "(''bob'', waiting 1050 20 ''chess'')"]
    by (simp add: run_defs)
  show ?thesis by (rule conjI [OF start poll])
qed

subsection \<open>C9: a failed game creation is not rolled back\<close>

text \<open>
  C9. When \<open>startMatchmaking\<close> has found a candidate and the game creation fails, the
  answer is the 500 failure; the queue is the old one without the requester's old entry
  and without the candidate's entry, which was there before; neither player is in the
  queue afterwards, and the games table is as it was.
\<close>

theorem failed_creation_not_rolled_back:
  assumes "user_findUnique ev p = Resolved (Some usr)"
    and "findBestMatch (queue_delete (queue s) p) (user_rating usr) gt p = Some c"
    and "\<not> game_create_ok ev"
  shows "startMatchmaking ev s p gt
           = (s\<lparr>queue := queue_delete (queue_delete (queue s) p) (fst c)\<rparr>, Failure)
       \<and> queue_has (queue s) (fst c)
       \<and> \<not> queue_has (queue (fst (startMatchmaking ev s p gt))) (fst c)
       \<and> \<not> queue_has (queue (fst (startMatchmaking ev s p gt))) p
       \<and> games (fst (startMatchmaking ev s p gt)) = games s"
proof -
  have eq: "startMatchmaking ev s p gt
           = (s\<lparr>queue := queue_delete (queue_delete (queue s) p) (fst c)\<rparr>, Failure)"
    unfolding startMatchmaking_candidate [OF assms(1,2)] using assms(3) by simp
  from findBestMatch_SomeD [OF assms(2)] have "c \<in> set (queue s)"
    by (simp add: queue_delete_def)
  then have "queue_has (queue s) (fst c)" by (simp add: queue_has_def)
  then show ?thesis unfolding eq by (simp add: queue_has_delete)
qed

theorem failed_creation_not_rolled_back_witness:
  "user_findUnique (demo_env_create_fails 30) ''carol''
     = Resolved (Some \<lparr>user_id = ''carol'', user_name = Some ''Carol'', user_rating = 1500\<rparr>)
   \<and> findBestMatch (queue_delete (queue mixed_waiting) ''carol'') 1500 ''ayo'' ''carol''
       = Some (''alice'', waiting 1000 10 ''ayo'')
   \<and> \<not> game_create_ok (demo_env_create_fails 30)
   \<and> startMatchmaking (demo_env_create_fails 30) mixed_waiting ''carol'' ''ayo''
       = (\<lparr>queue = [(''bob'', waiting 1050 20 ''chess'')], games = []\<rparr>, Failure)"
  using failed_creation_not_rolled_back [where ev = "demo_env_create_fails 30"
      and s = mixed_waiting
      and p = "''carol''" and gt = "''ayo''" and c = "(''alice'', waiting 1000 10 ''ayo'')"
      and usr = "\<lparr>user_id = ''carol'', user_name = Some ''Carol'', user_rating = 1500\<rparr>"]
  by (simp add: run_defs)

subsection \<open>C10: the poll searches with the rating just looked up\<close>

text \<open>
  C10, as the code has it. For a player in the queue, \<open>checkMatchmakingStatus\<close> gives
  the search the rating that the user lookup returns at the poll, not the rating stored in
  the player's own entry: the answer is the one the search yields for the looked-up
  rating, and when the lookup fails or finds no user the poll answers the 500 failure and
  leaves the state as it is, although a rating is stored. In every state reached from the
  empty queue by start, cancel, status and clean-up steps, the search returns the same
  candidate for any two ratings, so which of the two ratings is used does not change the
  selected candidate there.
\<close>

theorem status_search_uses_fresh_rating:
  "(queue_has (queue s) p \<longrightarrow>
      (user_findUnique ev p = Resolved (Some usr) \<and> game_create_ok ev \<longrightarrow>
         snd (checkMatchmakingStatus ev s p gt)
           = (case findBestMatch (queue s) (user_rating usr) gt p of
                None \<Rightarrow> StatusSearching (length (queue s))
              | Some c \<Rightarrow> MatchFound (match_of gt p (fst c) (now ev))))
      \<and> (user_findUnique ev p = Rejected \<or> user_findUnique ev p = Resolved None \<longrightarrow>
            checkMatchmakingStatus ev s p gt = (s, Failure)))
   \<and> findBestMatch (queue (run \<lparr>queue = [], games = gs\<rparr> ops)) r gt p
       = findBestMatch (queue (run \<lparr>queue = [], games = gs\<rparr> ops)) r' gt p"
proof (intro conjI impI)
  assume has: "queue_has (queue s) p"
    and a: "user_findUnique ev p = Resolved (Some usr) \<and> game_create_ok ev"
  show "snd (checkMatchmakingStatus ev s p gt)
        = (case findBestMatch (queue s) (user_rating usr) gt p of
             None \<Rightarrow> StatusSearching (length (queue s))
           | Some c \<Rightarrow> MatchFound (match_of gt p (fst c) (now ev)))"
  proof (cases "findBestMatch (queue s) (user_rating usr) gt p")
    case None
    with has a show ?thesis by (simp add: checkMatchmakingStatus_def queue_size_def)
  next
    case (Some c)
    with has a show ?thesis by (simp add: checkMatchmakingStatus_candidate)
  qed
next
  assume has: "queue_has (queue s) p"
    and "user_findUnique ev p = Rejected \<or> user_findUnique ev p = Resolved None"
  then show "checkMatchmakingStatus ev s p gt = (s, Failure)"
    by (auto simp: checkMatchmakingStatus_def)
next
  have "distinct (map (\<lambda>e. gameType (snd e)) (queue (run \<lparr>queue = [], games = gs\<rparr> ops)))"
    by (rule run_tags) simp
  then show "findBestMatch (queue (run \<lparr>queue = [], games = gs\<rparr> ops)) r gt p
       = findBestMatch (queue (run \<lparr>queue = [], games = gs\<rparr> ops)) r' gt p"
    by (rule findBestMatch_any_rating)
qed

theorem status_search_uses_fresh_rating_witness:
  "(run \<lparr>queue = [], games = []\<rparr> two_started = mixed_waiting
    \<and> queue_has (queue mixed_waiting) ''alice''
    \<and> user_findUnique (demo_env 40) ''alice''
        = Resolved (Some \<lparr>user_id = ''alice'', user_name = Some ''Alice'', user_rating = 1000\<rparr>)
    \<and> game_create_ok (demo_env 40)
    \<and> findBestMatch (queue mixed_waiting) 1000 ''chess'' ''alice''
        = Some (''bob'', waiting 1050 20 ''chess'')
    \<and> findBestMatch (queue mixed_waiting) 1000 ''chess'' ''alice''
        = findBestMatch (queue mixed_waiting) 7 ''chess'' ''alice''
    \<and> snd (checkMatchmakingStatus (demo_env 40) mixed_waiting ''alice'' ''chess'')
        = MatchFound (match_of ''chess'' ''alice'' ''bob'' 40))
   \<and> (user_findUnique (demo_env_lookup_fails 40) ''alice'' = Rejected
    \<and> checkMatchmakingStatus (demo_env_lookup_fails 40) mixed_waiting ''alice'' ''chess''
        = (mixed_waiting, Failure))"
proof -
  have found: "run \<lparr>queue = [], games = []\<rparr> two_started = mixed_waiting
    \<and> queue_has (queue mixed_waiting) ''alice''
    \<and> user_findUnique (demo_env 40) ''alice''
        = Resolved (Some \<lparr>user_id = ''alice'', user_name = Some ''Alice'', user_rating = 1000\<rparr>)
    \<and> game_create_ok (demo_env 40)
    \<and> findBestMatch (queue mixed_waiting) 1000 ''chess'' ''alice''
        = Some (''bob'', waiting 1050 20 ''chess'')
    \<and> findBestMatch (queue mixed_waiting) 1000 ''chess'' ''alice''
        = findBestMatch (queue mixed_waiting) 7 ''chess'' ''alice''
    \<and> snd (checkMatchmakingStatus (demo_env 40) mixed_waiting ''alice'' ''chess'')
        = MatchFound (match_of ''chess'' ''alice'' ''bob'' 40)"
    using status_search_uses_fresh_rating [where s = mixed_waiting and ev = "demo_env 40"
        and p = "''alice''" and gt = "''chess''" and gs = "[]" and ops = two_started
        and r = 1000 and r' = 7
        and usr = "\<lparr>user_id = ''alice'', user_name = Some ''Alice'', user_rating = 1000\<rparr>"]
    by (simp add: run_defs)
  have failed: "user_findUnique (demo_env_lookup_fails 40) ''alice'' = Rejected
    \<and> checkMatchmakingStatus (demo_env_lookup_fails 40) mixed_waiting ''alice'' ''chess''
        = (mixed_waiting, Failure)"
    using status_search_uses_fresh_rating [where s = mixed_waiting
        and ev = "demo_env_lookup_fails 40"
        and p = "''alice''" and gt = "''chess''" and gs = "[]" and ops = "[]"
        and r = 0 and r' = 0
        and usr = "\<lparr>user_id = ''alice'', user_name = Some ''Alice'', user_rating = 1000\<rparr>"]
    by (simp add: run_defs demo_env_lookup_fails_def)
  show ?thesis by (rule conjI [OF found failed])
qed

text \<open>
  The claim as worded (in some state where the stored and the looked-up rating differ, the
  poll selects another candidate than the stored rating would) has no instance among the
  states the handlers reach from the empty queue.
\<close>

theorem reached_queue_same_candidate_counterexample:
  "\<not> (\<exists>gs ops p d gt. \<exists>usr :: user.
        (p, d) \<in> set (queue (run \<lparr>queue = [], games = gs\<rparr> ops))
        \<and> rating d \<noteq> user_rating usr
        \<and> findBestMatch (queue (run \<lparr>queue = [], games = gs\<rparr> ops)) (user_rating usr) gt p
            \<noteq> findBestMatch (queue (run \<lparr>queue = [], games = gs\<rparr> ops)) (rating d) gt p)"
proof -
  have "findBestMatch (queue (run \<lparr>queue = [], games = gs\<rparr> ops)) (user_rating usr) gt p
      = findBestMatch (queue (run \<lparr>queue = [], games = gs\<rparr> ops)) (rating d) gt p"
    for gs ops gt p and usr :: user and d :: queue_data
    by (rule findBestMatch_any_rating, rule run_tags) simp
  then show ?thesis by simp
qed

end
